theory Spec2Isabelle
  imports Complex_Main "HOL-Library.Multiset"
begin

section \<open>Numbers\<close>

text \<open>
  Times, intervals and offsets are JavaScript numbers holding whole milliseconds
  (\<^verbatim>\<open>Date.now()\<close> and the configured durations). They are modelled as
  \<^typ>\<open>int\<close>: on whole numbers below \<open>2^53\<close> in magnitude the double arithmetic of
  \<^verbatim>\<open>+\<close>, \<^verbatim>\<open>-\<close>, \<^verbatim>\<open>%\<close> and the comparisons is exact.

  The remainder operator \<^verbatim>\<open>%\<close> truncates: the result has the sign of the dividend.
  With a zero divisor JavaScript yields NaN; the model has no NaN, and the constructor of
  a task never stores a zero interval, so every statement that evaluates \<open>js_rem\<close>
  is made for a non-zero divisor.
\<close>

definition js_rem :: "int \<Rightarrow> int \<Rightarrow> int" where
  "js_rem a b = (if a < 0 then - ((- a) mod \<bar>b\<bar>) else a mod \<bar>b\<bar>)"

section \<open>Task\<close>

text \<open>
  The options object of the constructor: each property is present or absent
  (\<^verbatim>\<open>undefined\<close>).
\<close>

record Task_options =
  opt_interval :: "int option"
  opt_name :: "string option"
  opt_offset :: "int option"

record Task =
  interval :: int
  name :: string
  offset :: int

text \<open>
  \<^verbatim>\<open>x || d\<close> yields \<open>d\<close> when \<open>x\<close> is falsy: \<^verbatim>\<open>undefined\<close>, the number
  \<open>0\<close>, the empty string.
\<close>

definition or_number :: "int option \<Rightarrow> int \<Rightarrow> int" where
  "or_number x d = (case x of None \<Rightarrow> d | Some v \<Rightarrow> if v = 0 then d else v)"

definition or_string :: "string option \<Rightarrow> string \<Rightarrow> string" where
  "or_string x d = (case x of None \<Rightarrow> d | Some v \<Rightarrow> if v = [] then d else v)"

text \<open>
  \<^verbatim>\<open>constructor(options = {})\<close>; \<open>cname\<close> is \<^verbatim>\<open>this.constructor.name\<close>, the name
  of the class being instantiated (\<open>''Task''\<close> for the base class). The constructor has
  no failing path.
\<close>

definition Task_constructor :: "string \<Rightarrow> Task_options \<Rightarrow> Task" where
  "Task_constructor cname options =
     \<lparr> interval = or_number (opt_interval options) 3600000,
       name = or_string (opt_name options) cname,
       offset = or_number (opt_offset options) 0 \<rparr>"

text \<open>\<^verbatim>\<open>return now + (this._interval - (now - this._offset) % this._interval)\<close>\<close>

definition schedule :: "Task \<Rightarrow> int \<Rightarrow> int" where
  "schedule t now = now + (interval t - js_rem (now - offset t) (interval t))"


text \<open>A time is on the grid of a task when it is the offset plus a multiple of the
  interval, which is what \<^verbatim>\<open>(time - offset) % interval === 0\<close> tests.\<close>

definition on_grid :: "Task \<Rightarrow> int \<Rightarrow> bool" where
  "on_grid t time = (js_rem (time - offset t) (interval t) = 0)"

section \<open>Scheduler\<close>

datatype error = TypeError

text \<open>A queue entry is the array \<^verbatim>\<open>[time, index, task]\<close>.\<close>

type_synonym entry = "int \<times> nat \<times> Task"

definition entry_time :: "entry \<Rightarrow> int" where
  "entry_time e = fst e"

definition entry_index :: "entry \<Rightarrow> nat" where
  "entry_index e = fst (snd e)"

definition entry_task :: "entry \<Rightarrow> Task" where
  "entry_task e = snd (snd e)"

text \<open>
  The comparator given to the queue:
  \<^verbatim>\<open>a[0] < b[0] || a[0] === b[0] && a[1] < b[1]\<close>.
\<close>

definition comparator :: "entry \<Rightarrow> entry \<Rightarrow> bool" where
  "comparator a b =
     (entry_time a < entry_time b \<or> entry_time a = entry_time b \<and> entry_index a < entry_index b)"

text \<open>
  Modelled from the spec: \<^verbatim>\<open>FastPriorityQueue\<close>, the imported package whose source is
  not part of the repository. The spec describes it as a min-ordered priority queue keyed
  by the comparator: \<^verbatim>\<open>peek\<close> yields the least entry (\<^verbatim>\<open>undefined\<close> when the queue is
  empty), \<^verbatim>\<open>add\<close> inserts an entry, \<^verbatim>\<open>poll\<close> removes the least one, and
  \<^verbatim>\<open>replaceTop\<close> replaces the least entry by a new one (and does nothing on an empty
  queue). The queue is held as a list ordered by the comparator, least entry first.
\<close>

fun pq_add :: "('a \<Rightarrow> 'a \<Rightarrow> bool) \<Rightarrow> 'a \<Rightarrow> 'a list \<Rightarrow> 'a list" where
  "pq_add lt x [] = [x]"
| "pq_add lt x (y # ys) = (if lt x y then x # y # ys else y # pq_add lt x ys)"

definition pq_peek :: "'a list \<Rightarrow> 'a option" where
  "pq_peek q = (case q of [] \<Rightarrow> None | x # _ \<Rightarrow> Some x)"

definition pq_isEmpty :: "'a list \<Rightarrow> bool" where
  "pq_isEmpty q = (q = [])"

definition pq_poll :: "'a list \<Rightarrow> 'a list" where
  "pq_poll q = (case q of [] \<Rightarrow> [] | _ # xs \<Rightarrow> xs)"

definition pq_replaceTop :: "('a \<Rightarrow> 'a \<Rightarrow> bool) \<Rightarrow> 'a \<Rightarrow> 'a list \<Rightarrow> 'a list" where
  "pq_replaceTop lt x q = (case q of [] \<Rightarrow> [] | _ # xs \<Rightarrow> pq_add lt x xs)"

text \<open>
  The calls the scheduler makes to the outside, in the order it makes them:
  \<^verbatim>\<open>task.perform(now, time)\<close> on the task of an entry, \<^verbatim>\<open>setTimeout\<close> with the
  argument bound to the callback and the delay, and \<^verbatim>\<open>clearTimeout\<close> with the handle.
  What is written to the console when logging is enabled is not modelled.
\<close>

record timeout =
  bound_now :: int
  delay :: int

datatype event =
    Perform int entry
  | SetTimeout int int
  | ClearTimeout "timeout option"

record Scheduler =
  tasks :: "Task list"
  log_enabled :: bool
  queue :: "entry list"
  isRunning :: bool
  timer :: "timeout option"
  calls :: "event list"

definition Scheduler_constructor :: "Task list \<Rightarrow> bool \<Rightarrow> Scheduler" where
  "Scheduler_constructor ts lg =
     \<lparr> tasks = ts, log_enabled = lg, queue = [], isRunning = False, timer = None, calls = [] \<rparr>"

text \<open>\<^verbatim>\<open>_schedule(task, index, time)\<close>\<close>

definition Scheduler_schedule :: "Task \<Rightarrow> nat \<Rightarrow> int \<Rightarrow> Scheduler \<Rightarrow> Scheduler" where
  "Scheduler_schedule task index time s =
     s\<lparr>queue := pq_add comparator (time, index, task) (queue s)\<rparr>"

text \<open>
  \<^verbatim>\<open>_setTimer()\<close>; \<open>clock\<close> is what \<^verbatim>\<open>Date.now()\<close> returns there. Reading element
  \<open>0\<close> of the \<^verbatim>\<open>undefined\<close> that \<^verbatim>\<open>peek\<close> yields on an empty queue throws a TypeError.
\<close>

definition setTimer :: "int \<Rightarrow> Scheduler \<Rightarrow> error option \<times> Scheduler" where
  "setTimer clock s =
     (case pq_peek (queue s) of
        None \<Rightarrow> (Some TypeError, s)
      | Some e \<Rightarrow>
          (let time = entry_time e in
           (None, s\<lparr>timer := Some \<lparr>bound_now = time, delay = time - clock\<rparr>,
                    calls := calls s @ [SetTimeout time (time - clock)]\<rparr>)))"

text \<open>The loop of \<^verbatim>\<open>start\<close> over \<^verbatim>\<open>this.tasks.entries()\<close>.\<close>

fun schedule_all :: "int \<Rightarrow> (nat \<times> Task) list \<Rightarrow> Scheduler \<Rightarrow> Scheduler" where
  "schedule_all now [] s = s"
| "schedule_all now ((index, task) # rest) s =
     schedule_all now rest (Scheduler_schedule task index (schedule task now) s)"

text \<open>
  \<^verbatim>\<open>start()\<close>; \<open>now\<close> is the clock read at the top of the method and \<open>clock\<close> the one
  read in \<^verbatim>\<open>_setTimer\<close>. The result pairs the exception thrown, if any, with the state
  the call leaves behind.
\<close>

definition start :: "int \<Rightarrow> int \<Rightarrow> Scheduler \<Rightarrow> error option \<times> Scheduler" where
  "start now clock s =
     (if isRunning s then (None, s)
      else setTimer clock (schedule_all now (enumerate 0 (tasks s)) (s\<lparr>isRunning := True\<rparr>)))"

text \<open>The loop of \<^verbatim>\<open>stop\<close>: \<^verbatim>\<open>while (!this._queue.isEmpty()) this._queue.poll()\<close>.\<close>

function clear_queue :: "'a list \<Rightarrow> 'a list" where
  "clear_queue q = (if pq_isEmpty q then q else clear_queue (pq_poll q))"
  by pat_completeness auto
termination
  by (relation "measure length") (auto simp: pq_isEmpty_def pq_poll_def split: list.splits)

text \<open>\<^verbatim>\<open>stop()\<close>. The field \<^verbatim>\<open>_timer\<close> keeps the cleared handle.\<close>

definition stop :: "Scheduler \<Rightarrow> Scheduler" where
  "stop s =
     (if \<not> isRunning s then s
      else s\<lparr>calls := calls s @ [ClearTimeout (timer s)],
              queue := clear_queue (queue s),
              isRunning := False\<rparr>)"

text \<open>
  One pass through the body of the loop of \<^verbatim>\<open>_perform\<close>, for the entry
  \<^verbatim>\<open>[time, index, task]\<close> held in the local variables: the task is performed, and the top
  of the queue is replaced by the entry for \<^verbatim>\<open>task.schedule(time)\<close>. The awaited
  \<^verbatim>\<open>perform\<close> is taken to complete without throwing and without another method of the
  scheduler running meanwhile.
\<close>

definition perform_body :: "int \<Rightarrow> entry \<Rightarrow> Scheduler \<Rightarrow> Scheduler" where
  "perform_body now e s =
     (let time = schedule (entry_task e) (entry_time e) in
      s\<lparr>calls := calls s @ [Perform now e],
        queue := pq_replaceTop comparator (time, entry_index e, entry_task e) (queue s)\<rparr>)"

text \<open>
  The \<^verbatim>\<open>do ... while (time <= now)\<close> loop of \<^verbatim>\<open>_perform\<close>. The loop has no bound of
  its own, so the function is partial: \<open>None\<close> is a loop that never ends, \<open>Some\<close> holds
  the exception thrown by destructuring an empty \<^verbatim>\<open>peek\<close>, if any, and the state.
\<close>

partial_function (option) perform_loop ::
    "int \<Rightarrow> entry \<Rightarrow> Scheduler \<Rightarrow> (error option \<times> Scheduler) option" where
  "perform_loop now e s =
     (let s' = perform_body now e s in
      case pq_peek (queue s') of
        None \<Rightarrow> Some (Some TypeError, s')
      | Some e' \<Rightarrow> if entry_time e' \<le> now then perform_loop now e' s' else Some (None, s'))"

declare perform_loop.simps [code]

text \<open>\<^verbatim>\<open>_perform(now)\<close>; \<open>clock\<close> is what \<^verbatim>\<open>Date.now()\<close> returns in \<^verbatim>\<open>_setTimer\<close>.\<close>

definition perform :: "int \<Rightarrow> int \<Rightarrow> Scheduler \<Rightarrow> (error option \<times> Scheduler) option" where
  "perform now clock s =
     (case pq_peek (queue s) of
        None \<Rightarrow> Some (Some TypeError, s)
      | Some e \<Rightarrow>
          (case perform_loop now e s of
             None \<Rightarrow> None
           | Some (Some err, s') \<Rightarrow> Some (Some err, s')
           | Some (None, s') \<Rightarrow> Some (setTimer clock s')))"

text \<open>
  The timer firing: the callback is \<^verbatim>\<open>this._perform.bind(this, time)\<close>, so the handler
  runs with the time of the entry the timer was armed for. A timer is pending only while
  the scheduler is running (\<^verbatim>\<open>stop\<close> clears it) and holds a handle; otherwise nothing
  fires.
\<close>

definition fire :: "int \<Rightarrow> Scheduler \<Rightarrow> (error option \<times> Scheduler) option" where
  "fire clock s =
     (if \<not> isRunning s then Some (None, s)
      else case timer s of
        None \<Rightarrow> Some (None, s)
      | Some t \<Rightarrow> perform (bound_now t) clock s)"

text \<open>
  The states of a scheduler that was constructed, started, and whose timer has fired any
  number of times, including the states between two passes of a drain loop. The clock
  values are arbitrary.
\<close>

inductive reachable :: "Scheduler \<Rightarrow> bool" where
  started: "\<forall>t\<in>set ts. interval t \<noteq> 0
            \<Longrightarrow> reachable (snd (start now clock (Scheduler_constructor ts lg)))"
| pass: "reachable s \<Longrightarrow> pq_peek (queue s) = Some e \<Longrightarrow> reachable (perform_body now e s)"
| armed: "reachable s \<Longrightarrow> reachable (snd (setTimer clock s))"

section \<open>Notions used in the statements\<close>

text \<open>
  The order the comparator induces on entries, the queue's list being ordered by it
  (which every queue built by the queue's operations is), the entry that replaces a
  performed one, the record of a drain loop between its start \<open>s0\<close> and a later state
  \<open>s\<close> having performed the entries \<open>ps\<close>, and how much is left to catch up.
\<close>

definition entry_le :: "entry \<Rightarrow> entry \<Rightarrow> bool" where
  "entry_le a b = (\<not> comparator b a)"

definition pq_sorted :: "entry list \<Rightarrow> bool" where
  "pq_sorted q = sorted_wrt entry_le q"

definition rescheduled :: "entry \<Rightarrow> entry" where
  "rescheduled e = (schedule (entry_task e) (entry_time e), entry_index e, entry_task e)"



text \<open>
  What holds of every reachable state: the queue's list is ordered, the queue holds one
  entry for each registered task, under the task's index, and every entry's time is on
  the grid of its task.
\<close>

definition reach_inv :: "Scheduler \<Rightarrow> bool" where
  "reach_inv s =
     (pq_sorted (queue s)
      \<and> mset (map (\<lambda>e. (entry_index e, entry_task e)) (queue s)) = mset (enumerate 0 (tasks s))
      \<and> (\<forall>e\<in>set (queue s). on_grid (entry_task e) (entry_time e)))"

text \<open>
  A scheduler to evaluate the statements on: task A every 1000 ms and task B every 500 ms,
  started at time 0; and its state after the timer has fired for the first time, where
  both tasks are due at 1000.
\<close>

definition demo_tasks :: "Task list" where
  "demo_tasks = [\<lparr>interval = 1000, name = ''A'', offset = 0\<rparr>,
                 \<lparr>interval = 500, name = ''B'', offset = 0\<rparr>]"

definition demo_started :: Scheduler where
  "demo_started = snd (start 0 0 (Scheduler_constructor demo_tasks False))"

definition demo_tied :: Scheduler where
  "demo_tied = snd (the (fire 500 demo_started))"

section \<open>Properties of the task arithmetic\<close>


lemma js_rem_multiple: "js_rem (b * k) b = 0"
proof (cases "b * k < 0")
  case True
  have "(- (b * k)) mod \<bar>b\<bar> = 0" by simp
  then show ?thesis using True by (simp add: js_rem_def)
next
  case False
  have "(b * k) mod \<bar>b\<bar> = 0" by simp
  then show ?thesis using False by (simp add: js_rem_def)
qed

lemma js_rem_decompose: "\<exists>k. a - js_rem a b = b * k"
proof (cases "a < 0")
  case True
  have split: "- a = \<bar>b\<bar> * ((- a) div \<bar>b\<bar>) + (- a) mod \<bar>b\<bar>" by simp
  have "js_rem a b = - ((- a) mod \<bar>b\<bar>)" using True by (simp add: js_rem_def)
  then have eq: "a - js_rem a b = - (\<bar>b\<bar> * ((- a) div \<bar>b\<bar>))"
    using split by linarith
  show ?thesis
  proof (cases "b < 0")
    case True
    then have "a - js_rem a b = b * ((- a) div \<bar>b\<bar>)" using eq by simp
    then show ?thesis ..
  next
    case False
    then have "a - js_rem a b = b * (- ((- a) div \<bar>b\<bar>))" using eq by simp
    then show ?thesis ..
  qed
next
  case False
  have split: "a = \<bar>b\<bar> * (a div \<bar>b\<bar>) + a mod \<bar>b\<bar>" by simp
  have "js_rem a b = a mod \<bar>b\<bar>" using False by (simp add: js_rem_def)
  then have eq: "a - js_rem a b = \<bar>b\<bar> * (a div \<bar>b\<bar>)"
    using split by linarith
  show ?thesis
  proof (cases "b < 0")
    case True
    then have "a - js_rem a b = b * (- (a div \<bar>b\<bar>))" using eq by simp
    then show ?thesis ..
  next
    case False
    then have "a - js_rem a b = b * (a div \<bar>b\<bar>)" using eq by simp
    then show ?thesis ..
  qed
qed

lemma schedule_on_grid: "on_grid t (schedule t now)"
proof -
  obtain k where k: "(now - offset t) - js_rem (now - offset t) (interval t) = interval t * k"
    using js_rem_decompose by blast
  have "schedule t now - offset t = interval t * (k + 1)"
    using k by (simp add: schedule_def algebra_simps)
  then show ?thesis
    unfolding on_grid_def by (simp only: js_rem_multiple)
qed







section \<open>The queue and the drain loop\<close>

lemma entry_le_iff:
  "entry_le a b = (entry_time a < entry_time b \<or> entry_time a = entry_time b \<and> entry_index a \<le> entry_index b)"
  by (auto simp: entry_le_def comparator_def)

lemma entry_le_trans: "entry_le a b \<Longrightarrow> entry_le b c \<Longrightarrow> entry_le a c"
  by (auto simp: entry_le_iff)

lemma comparator_le: "comparator a b \<Longrightarrow> entry_le a b"
  by (auto simp: entry_le_iff comparator_def)

lemma set_pq_add: "set (pq_add lt x q) = insert x (set q)"
  by (induction q) auto

lemma mset_pq_add: "mset (pq_add lt x q) = add_mset x (mset q)"
  by (induction q) auto

lemma pq_add_sorted: "pq_sorted q \<Longrightarrow> pq_sorted (pq_add comparator x q)"
proof (induction q)
  case Nil
  then show ?case by (simp add: pq_sorted_def)
next
  case (Cons y ys)
  show ?case
  proof (cases "comparator x y")
    case True
    then have xy: "entry_le x y" by (rule comparator_le)
    have "\<forall>z\<in>set ys. entry_le x z"
      using Cons.prems xy by (auto simp: pq_sorted_def intro: entry_le_trans)
    then show ?thesis using True xy Cons.prems by (simp add: pq_sorted_def)
  next
    case False
    then have yx: "entry_le y x" by (simp add: entry_le_def)
    have "pq_sorted (pq_add comparator x ys)" using Cons by (simp add: pq_sorted_def)
    then show ?thesis using False yx Cons.prems by (auto simp: pq_sorted_def set_pq_add)
  qed
qed



lemma perform_body_queue:
  "queue s = e # rest \<Longrightarrow> queue (perform_body now e s) = pq_add comparator (rescheduled e) rest"
  by (simp add: perform_body_def pq_replaceTop_def rescheduled_def Let_def)

lemma perform_body_fields:
  "tasks (perform_body now e s) = tasks s"
  "log_enabled (perform_body now e s) = log_enabled s"
  "isRunning (perform_body now e s) = isRunning s"
  "timer (perform_body now e s) = timer s"
  "calls (perform_body now e s) = calls s @ [Perform now e]"
  by (simp_all add: perform_body_def Let_def)



lemma pq_peek_Cons: "pq_peek q = Some e \<Longrightarrow> \<exists>rest. q = e # rest"
  by (cases q) (auto simp: pq_peek_def)





lemma demo_started_eq:
  "demo_started =
     \<lparr>tasks = demo_tasks, log_enabled = False,
      queue = [(500, 1, \<lparr>interval = 500, name = ''B'', offset = 0\<rparr>),
               (1000, 0, \<lparr>interval = 1000, name = ''A'', offset = 0\<rparr>)],
      isRunning = True, timer = Some \<lparr>bound_now = 500, delay = 500\<rparr>,
      calls = [SetTimeout 500 500]\<rparr>"
  by code_simp

lemma demo_tied_eq:
  "demo_tied =
     \<lparr>tasks = demo_tasks, log_enabled = False,
      queue = [(1000, 0, \<lparr>interval = 1000, name = ''A'', offset = 0\<rparr>),
               (1000, 1, \<lparr>interval = 500, name = ''B'', offset = 0\<rparr>)],
      isRunning = True, timer = Some \<lparr>bound_now = 1000, delay = 500\<rparr>,
      calls = [SetTimeout 500 500,
               Perform 500 (500, 1, \<lparr>interval = 500, name = ''B'', offset = 0\<rparr>),
               SetTimeout 1000 500]\<rparr>"
  by code_simp



lemma demo_tied_top:
  "pq_peek (queue demo_tied) = Some (1000, 0, \<lparr>interval = 1000, name = ''A'', offset = 0\<rparr>)"
  by (simp add: demo_tied_eq pq_peek_def)



section \<open>The drain cycle\<close>





section \<open>Reachable states\<close>

lemma Scheduler_schedule_fields:
  "tasks (Scheduler_schedule task index time s) = tasks s"
  "queue (Scheduler_schedule task index time s) = pq_add comparator (time, index, task) (queue s)"
  by (simp_all add: Scheduler_schedule_def)

lemma schedule_all_tasks: "tasks (schedule_all now xs s) = tasks s"
  by (induction now xs s rule: schedule_all.induct) (simp_all add: Scheduler_schedule_fields)

lemma schedule_all_sorted: "pq_sorted (queue s) \<Longrightarrow> pq_sorted (queue (schedule_all now xs s))"
  by (induction now xs s rule: schedule_all.induct)
     (simp_all add: Scheduler_schedule_fields pq_add_sorted)

lemma schedule_all_entries:
  "mset (map (\<lambda>e. (entry_index e, entry_task e)) (queue (schedule_all now xs s)))
     = mset (map (\<lambda>e. (entry_index e, entry_task e)) (queue s)) + mset xs"
  by (induction now xs s rule: schedule_all.induct)
     (simp_all add: Scheduler_schedule_fields mset_pq_add entry_index_def entry_task_def)

lemma schedule_all_on_grid:
  "\<forall>e\<in>set (queue s). on_grid (entry_task e) (entry_time e)
   \<Longrightarrow> \<forall>e\<in>set (queue (schedule_all now xs s)). on_grid (entry_task e) (entry_time e)"
  by (induction now xs s rule: schedule_all.induct)
     (simp_all add: Scheduler_schedule_fields set_pq_add entry_time_def entry_task_def schedule_on_grid)

lemma setTimer_fields:
  "tasks (snd (setTimer clock s)) = tasks s"
  "queue (snd (setTimer clock s)) = queue s"
  "isRunning (snd (setTimer clock s)) = isRunning s"
  by (simp_all add: setTimer_def Let_def split: option.splits)

lemma setTimer_inv: "reach_inv s \<Longrightarrow> reach_inv (snd (setTimer clock s))"
  by (simp add: reach_inv_def setTimer_fields)

lemma start_inv: "reach_inv (snd (start now clock (Scheduler_constructor ts lg)))"
proof -
  let ?s0 = "(Scheduler_constructor ts lg)\<lparr>isRunning := True\<rparr>"
  have q0: "queue ?s0 = []" and t0: "tasks ?s0 = ts" by (simp_all add: Scheduler_constructor_def)
  let ?s1 = "schedule_all now (enumerate 0 ts) ?s0"
  have "reach_inv ?s1"
    unfolding reach_inv_def
    using schedule_all_sorted [of ?s0 now "enumerate 0 ts"]
      schedule_all_entries [of now "enumerate 0 ts" ?s0]
      schedule_all_on_grid [of ?s0 now "enumerate 0 ts"]
    by (simp add: q0 t0 schedule_all_tasks pq_sorted_def)
  then have "reach_inv (snd (setTimer clock ?s1))" by (rule setTimer_inv)
  moreover have "start now clock (Scheduler_constructor ts lg) = setTimer clock ?s1"
    by (simp add: start_def Scheduler_constructor_def)
  ultimately show ?thesis by simp
qed

lemma perform_body_inv:
  assumes inv: "reach_inv s" and top: "pq_peek (queue s) = Some e"
  shows "reach_inv (perform_body now e s)"
proof -
  obtain rest where q: "queue s = e # rest" using pq_peek_Cons [OF top] by blast
  let ?s = "perform_body now e s"
  have q': "queue ?s = pq_add comparator (rescheduled e) rest" by (rule perform_body_queue [OF q])
  have "pq_sorted rest" using inv q by (simp add: reach_inv_def pq_sorted_def)
  then have c1: "pq_sorted (queue ?s)" unfolding q' by (rule pq_add_sorted)
  have same: "(entry_index (rescheduled e), entry_task (rescheduled e)) = (entry_index e, entry_task e)"
    by (simp add: rescheduled_def entry_index_def entry_task_def)
  have c2: "mset (map (\<lambda>e. (entry_index e, entry_task e)) (queue ?s)) = mset (enumerate 0 (tasks ?s))"
    using inv q same by (simp add: reach_inv_def q' mset_pq_add perform_body_fields)
  have "on_grid (entry_task (rescheduled e)) (entry_time (rescheduled e))"
    by (simp add: rescheduled_def entry_task_def entry_time_def schedule_on_grid)
  then have c3: "\<forall>x\<in>set (queue ?s). on_grid (entry_task x) (entry_time x)"
    using inv q by (simp add: reach_inv_def q' set_pq_add)
  show ?thesis unfolding reach_inv_def using c1 c2 c3 by blast
qed

lemma reachable_inv: "reachable s \<Longrightarrow> reach_inv s"
proof (induction rule: reachable.induct)
  case (started ts now clock lg)
  show ?case by (rule start_inv)
next
  case (pass s e now)
  then show ?case by (simp add: perform_body_inv)
next
  case (armed s clock)
  then show ?case by (simp add: setTimer_inv)
qed

lemma perform_loop_reachable_aux:
  "perform_loop now e s = Some r
   \<Longrightarrow> reachable s \<and> pq_peek (queue s) = Some e \<longrightarrow> reachable (snd r)"
proof (induction rule: perform_loop.raw_induct [rotated 1, consumes 1])
  case (1 loop now e s r)
  let ?s = "perform_body now e s"
  show ?case
  proof
    assume pre: "reachable s \<and> pq_peek (queue s) = Some e"
    then have r1: "reachable ?s" by (simp add: reachable.pass)
    show "reachable (snd r)"
    proof (cases "pq_peek (queue ?s)")
      case None
      then have "r = (Some TypeError, ?s)" using "1.hyps" by (simp add: Let_def)
      then show ?thesis using r1 by simp
    next
      case (Some e')
      show ?thesis
      proof (cases "entry_time e' \<le> now")
        case True
        then have "loop now e' ?s = Some r" using "1.hyps" Some by (simp add: Let_def)
        then show ?thesis using "1.IH" r1 Some by blast
      next
        case False
        then have "r = (None, ?s)" using "1.hyps" Some by (simp add: Let_def)
        then show ?thesis using r1 by simp
      qed
    qed
  qed
qed

lemma perform_loop_reachable:
  "perform_loop now e s = Some r \<Longrightarrow> reachable s \<Longrightarrow> pq_peek (queue s) = Some e \<Longrightarrow> reachable (snd r)"
  using perform_loop_reachable_aux by blast

lemma perform_reachable:
  assumes "reachable s" and "perform now clock s = Some r"
  shows "reachable (snd r)"
proof (cases "pq_peek (queue s)")
  case None
  then show ?thesis using assms by (auto simp: perform_def)
next
  case (Some e)
  show ?thesis
  proof (cases "perform_loop now e s")
    case None
    then show ?thesis using assms Some by (simp add: perform_def)
  next
    case loop: (Some r1)
    have r1: "reachable (snd r1)" by (rule perform_loop_reachable [OF loop assms(1) Some])
    show ?thesis
    proof (cases "fst r1")
      case None
      then have "r = setTimer clock (snd r1)"
        using assms(2) Some loop by (cases r1) (auto simp: perform_def)
      then show ?thesis using r1 by (simp add: reachable.armed)
    next
      case (Some err)
      then have "r = r1" using assms(2) \<open>pq_peek (queue s) = Some e\<close> loop
        by (cases r1) (auto simp: perform_def)
      then show ?thesis using r1 by simp
    qed
  qed
qed

lemma fire_reachable: "reachable s \<Longrightarrow> fire clock s = Some r \<Longrightarrow> reachable (snd r)"
  by (auto simp: fire_def perform_reachable split: option.splits if_splits)

lemma reachable_indices:
  assumes "reachable s"
  shows "mset (map entry_index (queue s)) = mset [0..<length (tasks s)]"
proof -
  have "mset (map (\<lambda>e. (entry_index e, entry_task e)) (queue s)) = mset (enumerate 0 (tasks s))"
    using reachable_inv [OF assms] by (simp add: reach_inv_def)
  then have "mset (map fst (map (\<lambda>e. (entry_index e, entry_task e)) (queue s)))
      = mset (map fst (enumerate 0 (tasks s)))"
    by (simp only: mset_map)
  moreover have "map fst (map (\<lambda>e. (entry_index e, entry_task e)) (queue s)) = map entry_index (queue s)"
    by (simp add: o_def)
  moreover have "map fst (enumerate 0 (tasks s)) = [0..<length (tasks s)]"
    by (simp add: map_fst_enumerate)
  ultimately show ?thesis by (simp only:)
qed

lemma demo_started_reachable: "reachable demo_started"
  unfolding demo_started_def by (rule reachable.started) (simp add: demo_tasks_def)

lemma demo_tied_reachable: "reachable demo_tied"
proof -
  have "fire 500 demo_started = Some (None, demo_tied)"
    unfolding demo_tied_eq by code_simp
  from fire_reachable [OF demo_started_reachable this] show ?thesis by simp
qed

text \<open>
  Claim C7. In every state reachable from \<open>start()\<close> by drain cycles, the states
  between two passes of a drain loop included, no two entries of the queue have the same
  task index; the indices in the queue are those of the registered tasks, and each entry
  holds the task registered under its index.
\<close>

theorem one_entry_per_task:
  assumes "reachable s"
  shows "distinct (map entry_index (queue s))
         \<and> set (map entry_index (queue s)) = {..<length (tasks s)}
         \<and> list_all (\<lambda>e. entry_task e = tasks s ! entry_index e) (queue s)"
proof -
  note idx = reachable_indices [OF assms]
  have d: "distinct (map entry_index (queue s))"
    using mset_eq_imp_distinct_iff [OF idx] by simp
  have st: "set (map entry_index (queue s)) = {..<length (tasks s)}"
    using mset_eq_setD [OF idx] by (simp add: lessThan_atLeast0)
  have pairs: "mset (map (\<lambda>e. (entry_index e, entry_task e)) (queue s)) = mset (enumerate 0 (tasks s))"
    using reachable_inv [OF assms] by (simp add: reach_inv_def)
  have "entry_task e = tasks s ! entry_index e" if "e \<in> set (queue s)" for e
  proof -
    have "(entry_index e, entry_task e) \<in> set (map (\<lambda>e. (entry_index e, entry_task e)) (queue s))"
      using that by auto
    then have "(entry_index e, entry_task e) \<in> set (enumerate 0 (tasks s))"
      using mset_eq_setD [OF pairs] by simp
    then show ?thesis by (simp add: in_set_enumerate_eq)
  qed
  then have "list_all (\<lambda>e. entry_task e = tasks s ! entry_index e) (queue s)"
    by (simp add: list_all_iff)
  then show ?thesis using d st by blast
qed

theorem one_entry_per_task_witness:
  "reachable demo_tied
   \<and> distinct (map entry_index (queue demo_tied))
   \<and> set (map entry_index (queue demo_tied)) = {..<length (tasks demo_tied)}
   \<and> list_all (\<lambda>e. entry_task e = tasks demo_tied ! entry_index e) (queue demo_tied)"
  using one_entry_per_task [OF demo_tied_reachable] demo_tied_reachable by blast



section \<open>The constructor of a task\<close>



text \<open>
  Claim C10. An interval of zero, like an absent one, yields a task whose interval is the
  default of 3600000 ms, and a negative interval is stored as given. The name and the
  offset are defaulted the same way: the empty name and the absent one yield the name of
  the class, any other name is stored; the offset zero and the absent one yield zero, and
  any offset is stored as given.
\<close>

theorem constructor_defaults:
  "interval (Task_constructor cname (options\<lparr>opt_interval := Some 0\<rparr>)) = 3600000
   \<and> interval (Task_constructor cname (options\<lparr>opt_interval := None\<rparr>)) = 3600000
   \<and> (i < 0 \<longrightarrow> interval (Task_constructor cname (options\<lparr>opt_interval := Some i\<rparr>)) = i)
   \<and> name (Task_constructor cname (options\<lparr>opt_name := Some ''''\<rparr>)) = cname
   \<and> name (Task_constructor cname (options\<lparr>opt_name := None\<rparr>)) = cname
   \<and> (n \<noteq> '''' \<longrightarrow> name (Task_constructor cname (options\<lparr>opt_name := Some n\<rparr>)) = n)
   \<and> offset (Task_constructor cname (options\<lparr>opt_offset := Some 0\<rparr>)) = 0
   \<and> offset (Task_constructor cname (options\<lparr>opt_offset := None\<rparr>)) = 0
   \<and> offset (Task_constructor cname (options\<lparr>opt_offset := Some k\<rparr>)) = k"
  by (simp add: Task_constructor_def or_number_def or_string_def)

theorem constructor_defaults_witness:
  "interval (Task_constructor ''Task''
      (\<lparr>opt_interval = Some 60, opt_name = Some ''poll'', opt_offset = Some 5\<rparr>\<lparr>opt_interval := Some (- 5)\<rparr>)) = - 5
   \<and> name (Task_constructor ''Task''
      (\<lparr>opt_interval = Some 60, opt_name = Some ''poll'', opt_offset = Some 5\<rparr>\<lparr>opt_name := Some ''flush''\<rparr>)) = ''flush''
   \<and> interval (Task_constructor ''Task''
      (\<lparr>opt_interval = Some 60, opt_name = Some ''poll'', opt_offset = Some 5\<rparr>\<lparr>opt_interval := Some 0\<rparr>)) = 3600000"
  using constructor_defaults [of "''Task''"
      "\<lparr>opt_interval = Some 60, opt_name = Some ''poll'', opt_offset = Some 5\<rparr>" "- 5" "''flush''" 0]
  by simp

section \<open>The timer and the lifecycle\<close>

text \<open>
  The timer of the demonstration scheduler was armed for 500. When it fires at 1700
  the handler performs task B and arms the next timer, for the entries at 1000, with the
  delay \<open>1000 - 1700\<close>: a negative number is passed to \<open>setTimeout\<close>.
\<close>

theorem negative_delay_counterexample:
  "map_option (last \<circ> calls \<circ> snd) (fire 1700 demo_started) = Some (SetTimeout 1000 (- 700))
   \<and> (- 700 :: int) \<noteq> max 0 (1000 - 1700)"
proof -
  have "fire 1700 demo_started =
     Some (None,
       \<lparr>tasks = demo_tasks, log_enabled = False,
        queue = [(1000, 0, \<lparr>interval = 1000, name = ''A'', offset = 0\<rparr>),
                 (1000, 1, \<lparr>interval = 500, name = ''B'', offset = 0\<rparr>)],
        isRunning = True, timer = Some \<lparr>bound_now = 1000, delay = - 700\<rparr>,
        calls = [SetTimeout 500 500,
                 Perform 500 (500, 1, \<lparr>interval = 500, name = ''B'', offset = 0\<rparr>),
                 SetTimeout 1000 (- 700)]\<rparr>)"
    by code_simp
  then show ?thesis by simp
qed

text \<open>
  Claim C8, amended. Whenever the scheduler arms its timer, for the earliest entry of a
  queue that is not empty, the delay it passes is the time of that entry minus the
  current time. That is \<open>max(0, earliestTime - currentTime)\<close> exactly when the entry is
  not overdue; for an overdue entry the delay passed is negative.
\<close>

theorem setTimer_delay_unclamped:
  assumes "pq_peek (queue s) = Some e"
  shows "setTimer clock s =
           (None, s\<lparr>timer := Some \<lparr>bound_now = entry_time e, delay = entry_time e - clock\<rparr>,
                    calls := calls s @ [SetTimeout (entry_time e) (entry_time e - clock)]\<rparr>)
         \<and> ((entry_time e - clock = max 0 (entry_time e - clock)) = (clock \<le> entry_time e))"
  using assms by (auto simp: setTimer_def Let_def)

theorem setTimer_delay_unclamped_witness:
  "pq_peek (queue demo_tied) = Some (1000, 0, \<lparr>interval = 1000, name = ''A'', offset = 0\<rparr>)
   \<and> setTimer 1700 demo_tied =
       (None, demo_tied\<lparr>timer := Some \<lparr>bound_now = 1000, delay = - 700\<rparr>,
                        calls := calls demo_tied @ [SetTimeout 1000 (- 700)]\<rparr>)"
  using setTimer_delay_unclamped [OF demo_tied_top, of 1700] demo_tied_top by (simp add: entry_time_def)

lemma schedule_all_isRunning: "isRunning (schedule_all now xs s) = isRunning s"
  by (induction now xs s rule: schedule_all.induct) (simp_all add: Scheduler_schedule_def)

lemma start_running: "isRunning (snd (start now clock s))"
  by (simp add: start_def setTimer_fields schedule_all_isRunning)

text \<open>
  Claim C9. A second \<open>start()\<close> right after a first one throws nothing and leaves the
  state as the first one left it, whatever the first one did (it leaves the scheduler
  running even when it throws for want of a task), and \<open>stop()\<close> on a scheduler that
  is not running leaves the state as it is.
\<close>

theorem lifecycle_idempotent:
  "start now2 clock2 (snd (start now1 clock1 s)) = (None, snd (start now1 clock1 s))
   \<and> (\<not> isRunning s \<longrightarrow> stop s = s)"
  using start_running [of now1 clock1 s] by (simp add: start_def stop_def)

theorem lifecycle_idempotent_witness:
  "start 7 8 (snd (start 0 0 (Scheduler_constructor demo_tasks False)))
     = (None, snd (start 0 0 (Scheduler_constructor demo_tasks False)))
   \<and> stop (Scheduler_constructor demo_tasks False) = Scheduler_constructor demo_tasks False"
  using lifecycle_idempotent [of 7 8 0 0 "Scheduler_constructor demo_tasks False"]
  by (simp add: Scheduler_constructor_def demo_tasks_def)

end
